theory Spec2Isabelle
  imports Main "HOL-Library.Sublist"
begin

section \<open>The syntax highlighter of CodeViewer.tsx\<close>

text \<open>
  A JavaScript string is modelled as a \<^typ>\<open>string\<close>: the list of its code units, here the
  8-bit ones (U+0000 to U+00FF). \<open>length\<close> is the source's \<open>.length\<close>.
\<close>

subsection \<open>Tokens\<close>

datatype TokenType = Text | Keyword | String | Comment | Number | Type | Function

record Token =
  tok_text :: string
  tok_type :: TokenType

datatype Lang = Tsx | Python

subsection \<open>Regular expressions and their backtracking matcher\<close>

text \<open>
  The constructs the six patterns of a profile use. A class is a list of inclusive
  ranges of characters; \<open>Words\<close> is an alternation of literal words, tried in order;
  \<open>WordB\<close> is \<open>\b\<close>, \<open>EndL\<close> is \<open>$\<close> under the \<open>m\<close> flag, \<open>Ahead r\<close> is \<open>(?=r)\<close>,
  \<open>Dot\<close> is \<open>.\<close> and \<open>Star\<close> is the greedy \<open>*\<close>.
\<close>

datatype regex =
    Lit char
  | Cls "(char \<times> char) list"
  | NCls "(char \<times> char) list"
  | Dot
  | Words "string list"
  | Seq regex regex
  | Alt regex regex
  | Star regex
  | WordB
  | EndL
  | Ahead regex

definition inCls :: "(char \<times> char) list \<Rightarrow> char \<Rightarrow> bool" where
  "inCls rs c =
     list_ex (\<lambda>(lo, hi). (of_char lo :: nat) \<le> of_char c \<and> (of_char c :: nat) \<le> of_char hi) rs"

text \<open>Line terminators among the 8-bit code units: line feed and carriage return.\<close>

definition isLineTerminator :: "char \<Rightarrow> bool" where
  "isLineTerminator c = (c = CHR 0x0A \<or> c = CHR 0x0D)"

text \<open>The word characters of \<open>\b\<close>: letters, digits and the underscore.\<close>

definition wordChars :: "(char \<times> char) list" where
  "wordChars = [(CHR ''a'', CHR ''z''), (CHR ''A'', CHR ''Z''), (CHR ''0'', CHR ''9''),
                (CHR ''_'', CHR ''_'')]"

definition isWordAt :: "string \<Rightarrow> nat \<Rightarrow> bool" where
  "isWordAt s i = (i < length s \<and> inCls wordChars (s ! i))"

text \<open>
  \<open>ends r s i\<close> lists the positions where a match of \<open>r\<close> that starts at position \<open>i\<close> of
  \<open>s\<close> can end, in the order in which the backtracking matcher tries them: the first
  alternative first, the longest repetition first. An iteration of \<open>*\<close> that consumes
  nothing is rejected, as the language standard has it.
\<close>

function ends :: "regex \<Rightarrow> string \<Rightarrow> nat \<Rightarrow> nat list" where
  "ends (Lit c) s i = (if i < length s \<and> s ! i = c then [Suc i] else [])"
| "ends (Cls rs) s i = (if i < length s \<and> inCls rs (s ! i) then [Suc i] else [])"
| "ends (NCls rs) s i = (if i < length s \<and> \<not> inCls rs (s ! i) then [Suc i] else [])"
| "ends Dot s i = (if i < length s \<and> \<not> isLineTerminator (s ! i) then [Suc i] else [])"
| "ends (Words ws) s i =
     concat (map (\<lambda>w. if prefix w (drop i s) then [i + length w] else []) ws)"
| "ends (Seq r1 r2) s i = concat (map (\<lambda>j. ends r2 s j) (ends r1 s i))"
| "ends (Alt r1 r2) s i = ends r1 s i @ ends r2 s i"
| "ends (Star r) s i =
     concat (map (\<lambda>j. ends (Star r) s j) (filter (\<lambda>j. i < j \<and> j \<le> length s) (ends r s i)))
     @ [i]"
| "ends WordB s i =
     (if (0 < i \<and> isWordAt s (i - 1)) \<noteq> isWordAt s i then [i] else [])"
| "ends EndL s i =
     (if i = length s \<or> (i < length s \<and> isLineTerminator (s ! i)) then [i] else [])"
| "ends (Ahead r) s i = (if ends r s i = [] then [] else [i])"
  by pat_completeness auto
termination
  by (relation "inv_image (measure size <*lex*> measure id) (\<lambda>(r, s, i). (r, length s - i))")
     auto

text \<open>
  One step of \<open>RegExp.prototype.exec\<close> on a global pattern, repeated as \<open>matchAll\<close> does:
  from \<open>lastIndex = k\<close> the first position where the pattern matches is looked for, the
  match is the matcher's first choice there, and \<open>lastIndex\<close> moves to its end (one
  further when the match is empty). Each match is the pair of \<open>match.index\<close> and
  \<open>match[0]\<close>.
\<close>

function matchAllFrom :: "regex \<Rightarrow> string \<Rightarrow> nat \<Rightarrow> (nat \<times> string) list" where
  "matchAllFrom r s k =
     (if length s < k then []
      else (case ends r s k of
              [] \<Rightarrow> matchAllFrom r s (Suc k)
            | e # _ \<Rightarrow> (k, take (e - k) (drop k s))
                       # matchAllFrom r s (if k < e then e else Suc k)))"
  by pat_completeness auto
termination
  by (relation "measure (\<lambda>(r, s, k). Suc (length s) - k)") auto

definition matchAll :: "regex \<Rightarrow> string \<Rightarrow> (nat \<times> string) list" where
  "matchAll r s = matchAllFrom r s 0"

subsection \<open>The two language profiles\<close>

record Rules =
  strings :: regex
  comments :: regex
  keywords' :: regex
  numbers :: regex
  types :: regex
  functions' :: regex

text \<open>
  \<open>quoted q\<close> is \<open>q(?:[^q\\]|\\.)*q\<close> for a quote character \<open>q\<close>, and \<open>star_body q\<close> is
  its repeated part \<open>(?:[^q\\]|\\.)*\<close>; the character \<open>0x5C\<close> is the backslash.
\<close>

definition star_body :: "char \<Rightarrow> regex" where
  "star_body q = Star (Alt (NCls [(q, q), (CHR 0x5C, CHR 0x5C)]) (Seq (Lit (CHR 0x5C)) Dot))"

definition quoted :: "char \<Rightarrow> regex" where
  "quoted q = Seq (Lit q) (Seq (star_body q) (Lit q))"

definition digit :: regex where
  "digit = Cls [(CHR ''0'', CHR ''9'')]"

definition alnum :: regex where
  "alnum = Cls [(CHR ''a'', CHR ''z''), (CHR ''A'', CHR ''Z''), (CHR ''0'', CHR ''9'')]"

definition alnum_us :: regex where
  "alnum_us = Cls [(CHR ''a'', CHR ''z''), (CHR ''A'', CHR ''Z''), (CHR ''0'', CHR ''9''),
                   (CHR ''_'', CHR ''_'')]"

text \<open>\<open>\s\<close> on 8-bit code units: tab to carriage return, space, no-break space.\<close>

definition space :: regex where
  "space = Cls [(CHR 0x09, CHR 0x0D), (CHR 0x20, CHR 0x20), (CHR 0xA0, CHR 0xA0)]"

definition tsx_keywords :: "string list" where
  "tsx_keywords =
     [''const'', ''let'', ''var'', ''function'', ''return'', ''if'', ''else'', ''for'',
      ''while'', ''import'', ''export'', ''from'', ''default'', ''type'', ''interface'',
      ''class'', ''extends'', ''implements'', ''new'', ''this'', ''try'', ''catch'',
      ''finally'', ''switch'', ''case'', ''break'', ''continue'', ''async'', ''await'',
      ''void'', ''number'', ''string'', ''boolean'', ''any'', ''React'', ''useState'',
      ''useEffect'', ''useMemo'', ''useCallback'', ''useRef'', ''useContext'']"

definition python_keywords :: "string list" where
  "python_keywords =
     [''def'', ''class'', ''if'', ''else'', ''elif'', ''for'', ''while'', ''return'',
      ''import'', ''from'', ''as'', ''pass'', ''break'', ''continue'', ''try'', ''except'',
      ''finally'', ''raise'', ''with'', ''lambda'', ''global'', ''nonlocal'', ''True'',
      ''False'', ''None'']"

definition tsx_rules :: Rules where
  "tsx_rules = \<lparr>
     strings = Alt (quoted (CHR 0x22)) (Alt (quoted (CHR 0x27)) (quoted (CHR 0x60))),
     comments = Seq (Lit (CHR ''/'')) (Seq (Lit (CHR ''/'')) (Seq (Star Dot) EndL)),
     keywords' = Seq WordB (Seq (Words tsx_keywords) WordB),
     numbers = Seq WordB (Seq digit (Seq (Star digit) WordB)),
     types = Seq WordB (Seq (Cls [(CHR ''A'', CHR ''Z'')]) (Seq (Star alnum) WordB)),
     functions' = Seq WordB (Seq (Cls [(CHR ''a'', CHR ''z'')])
                   (Seq (Star alnum) (Seq (Star space) (Ahead (Lit (CHR 0x28))))))
   \<rparr>"

definition python_rules :: Rules where
  "python_rules = \<lparr>
     strings = Alt (quoted (CHR 0x22)) (quoted (CHR 0x27)),
     comments = Seq (Lit (CHR 0x23)) (Seq (Star Dot) EndL),
     keywords' = Seq WordB (Seq (Words python_keywords) WordB),
     numbers = Seq WordB (Seq digit (Seq (Star digit) WordB)),
     types = Seq WordB (Seq (Cls [(CHR ''A'', CHR ''Z'')]) (Seq (Star alnum) WordB)),
     functions' = Seq WordB (Seq (Cls [(CHR ''a'', CHR ''z'')])
                   (Seq (Star alnum_us) (Seq (Star space) (Ahead (Lit (CHR 0x28))))))
   \<rparr>"

fun PATTERNS :: "Lang \<Rightarrow> Rules" where
  "PATTERNS Tsx = tsx_rules"
| "PATTERNS Python = python_rules"

subsection \<open>detectLanguage\<close>

text \<open>\<open>includes' s sub\<close> is \<open>s.includes(sub)\<close>: \<open>sub\<close> occurs in \<open>s\<close> at some position.\<close>

primrec includes' :: "string \<Rightarrow> string \<Rightarrow> bool" where
  "includes' [] sub = (sub = [])"
| "includes' (c # cs) sub = (prefix sub (c # cs) \<or> includes' cs sub)"

definition detectLanguage :: "string \<Rightarrow> Lang" where
  "detectLanguage code =
     (if includes' code ''def '' \<and> (includes' code '':'' \<or> includes' code ''import '')
      then Python else Tsx)"

subsection \<open>tokenizeLine\<close>

text \<open>\<open>substring s a b\<close> is \<open>s.substring(a, b)\<close>: both indices are clamped to the length
  and swapped when out of order.\<close>

definition substring :: "string \<Rightarrow> nat \<Rightarrow> nat \<Rightarrow> string" where
  "substring s a b =
     (let a' = min a (length s); b' = min b (length s)
      in take (max a' b' - min a' b') (drop (min a' b') s))"

text \<open>
  The loop over the matches of one segment, with \<open>lastIndex\<close> threaded through it; the
  empty list of matches is the code after the loop, which pushes the remaining text.
\<close>

fun splitMatches :: "string \<Rightarrow> TokenType \<Rightarrow> nat \<Rightarrow> (nat \<times> string) list \<Rightarrow> Token list" where
  "splitMatches txt ty lastIndex [] =
     (if lastIndex < length txt
      then [\<lparr>tok_text = substring txt lastIndex (length txt), tok_type = Text\<rparr>] else [])"
| "splitMatches txt ty lastIndex ((matchIndex, matchText) # ms) =
     (if lastIndex < matchIndex
      then [\<lparr>tok_text = substring txt lastIndex matchIndex, tok_type = Text\<rparr>] else [])
     @ \<lparr>tok_text = matchText, tok_type = ty\<rparr>
     # splitMatches txt ty (matchIndex + length matchText) ms"

definition applySegment :: "regex \<Rightarrow> TokenType \<Rightarrow> Token \<Rightarrow> Token list" where
  "applySegment pattern ty segment =
     (if tok_type segment \<noteq> Text then [segment]
      else (let matches = matchAll pattern (tok_text segment)
            in if matches = [] then [segment]
               else splitMatches (tok_text segment) ty 0 matches))"

definition applyPattern :: "regex \<Rightarrow> TokenType \<Rightarrow> Token list \<Rightarrow> Token list" where
  "applyPattern pattern ty segments = concat (map (applySegment pattern ty) segments)"

definition tokenizeLine :: "string \<Rightarrow> Lang \<Rightarrow> Token list" where
  "tokenizeLine line lang =
     (let rules = PATTERNS lang;
          segments = [\<lparr>tok_text = line, tok_type = Text\<rparr>];
          segments = applyPattern (strings rules) String segments;
          segments = applyPattern (comments rules) Comment segments;
          segments = applyPattern (keywords' rules) Keyword segments;
          segments = applyPattern (types rules) Type segments;
          segments = applyPattern (functions' rules) Function segments;
          segments = applyPattern (numbers rules) Number segments
      in segments)"

section \<open>The issue index and the per-line view of CodeViewer\<close>

datatype RiskLevel = LOW | MEDIUM | HIGH

text \<open>
  The fields of an \<open>AnalysisItem\<close> that the viewer reads. \<open>lineStart\<close> is \<open>None\<close> when
  the record carries no such field; the remaining fields are presentation text.
\<close>

record AnalysisItem =
  item_id :: string
  problem :: string
  lineStart :: "int option"
  whyDetection :: string
  risk :: RiskLevel

text \<open>
  One round of the loop that fills \<open>issueMap\<close>: a record without a line, or with line 0,
  is skipped; a line not yet in the map takes the record; a line already in the map is
  overwritten only when the record there does not mention \<open>Regex\<close> and the new one does.
\<close>

definition issueStep :: "(int \<rightharpoonup> AnalysisItem) \<Rightarrow> AnalysisItem \<Rightarrow> (int \<rightharpoonup> AnalysisItem)" where
  "issueStep m issue =
     (case lineStart issue of
        None \<Rightarrow> m
      | Some n \<Rightarrow>
          if n = 0 then m
          else (case m n of
                  None \<Rightarrow> m(n \<mapsto> issue)
                | Some existing \<Rightarrow>
                    if \<not> includes' (whyDetection existing) ''Regex''
                       \<and> includes' (whyDetection issue) ''Regex''
                    then m(n \<mapsto> issue) else m))"

definition issueMap :: "AnalysisItem list \<Rightarrow> (int \<rightharpoonup> AnalysisItem)" where
  "issueMap issues = foldl issueStep Map.empty issues"

text \<open>
  The values that meet in \<open>issue?.id === selectedIssueId\<close>: the left side is \<open>undefined\<close>
  or a string, the right side is \<open>null\<close> or a string, and \<open>===\<close> is equality of the two.
\<close>

datatype jsval = Undefined | Null | Str string

fun optional_id :: "AnalysisItem option \<Rightarrow> jsval" where
  "optional_id None = Undefined"
| "optional_id (Some issue) = Str (item_id issue)"

fun nullable :: "string option \<Rightarrow> jsval" where
  "nullable None = Null"
| "nullable (Some s) = Str s"

record LineView =
  lineNumber :: int
  hasIssue :: bool
  isSelected :: bool
  isFixed :: bool
  tokens :: "Token list"

text \<open>The body of \<open>lines.map((line, index) => ...)\<close>, up to the choice of colours.\<close>

definition renderLine ::
  "AnalysisItem list \<Rightarrow> string option \<Rightarrow> string set \<Rightarrow> Lang \<Rightarrow> nat \<Rightarrow> string \<Rightarrow> LineView" where
  "renderLine issues selectedIssueId fixedIssueIds lang index line =
     (let n = int index + 1;
          issue = issueMap issues n
      in \<lparr> lineNumber = n,
           hasIssue = (issue \<noteq> None),
           isSelected = (optional_id issue = nullable selectedIssueId),
           isFixed = (case issue of Some i \<Rightarrow> item_id i \<in> fixedIssueIds | None \<Rightarrow> False),
           tokens = (if length line < 500 then tokenizeLine line lang
                     else [\<lparr>tok_text = line, tok_type = Text\<rparr>]) \<rparr>)"

text \<open>\<open>code.split('\n')\<close>: the lines between line feeds, at least one.\<close>

fun splitLines :: "string \<Rightarrow> string list" where
  "splitLines [] = [[]]"
| "splitLines (c # cs) =
     (if c = CHR 0x0A then [] # splitLines cs
      else (case splitLines cs of
              [] \<Rightarrow> [[c]]
            | l # ls \<Rightarrow> (c # l) # ls))"

definition CodeViewer ::
  "string \<Rightarrow> AnalysisItem list \<Rightarrow> string option \<Rightarrow> string set \<Rightarrow> LineView list" where
  "CodeViewer code issues selectedIssueId fixedIssueIds =
     (let lines = splitLines code;
          lang = detectLanguage code
      in map (\<lambda>(index, line). renderLine issues selectedIssueId fixedIssueIds lang index line)
           (enumerate 0 lines))"

section \<open>Auxiliary notions for the statements\<close>

text \<open>
  A list of matches is well formed from position \<open>k\<close> of \<open>s\<close> when each match lies in \<open>s\<close>,
  is the text of \<open>s\<close> at its index, and starts no earlier than \<open>k\<close> and than the end of
  the match before it.
\<close>

fun wfMatches :: "string \<Rightarrow> nat \<Rightarrow> (nat \<times> string) list \<Rightarrow> bool" where
  "wfMatches s k [] = True"
| "wfMatches s k ((i, t) # ms) =
     (k \<le> i \<and> i + length t \<le> length s \<and> take (length t) (drop i s) = t
      \<and> wfMatches s (i + length t) ms)"

text \<open>Each token of a list paired with the offset at which its text starts, counted from \<open>k\<close>.\<close>

fun withOffsets :: "nat \<Rightarrow> Token list \<Rightarrow> (nat \<times> Token) list" where
  "withOffsets k [] = []"
| "withOffsets k (t # ts) = (k, t) # withOffsets (k + length (tok_text t)) ts"

text \<open>The quote characters that open a string literal in each profile.\<close>

fun quotes :: "Lang \<Rightarrow> char list" where
  "quotes Tsx = [CHR 0x22, CHR 0x27, CHR 0x60]"
| "quotes Python = [CHR 0x22, CHR 0x27]"

text \<open>
  The record that the loop of \<open>issueMap\<close> leaves on a line, read off the list: of the
  records anchored at the line, the first one, unless it does not mention \<open>Regex\<close> and
  a later one does; then the first of those.
\<close>

definition mentionsRegex :: "AnalysisItem \<Rightarrow> bool" where
  "mentionsRegex r = includes' (whyDetection r) ''Regex''"

definition settle :: "AnalysisItem \<Rightarrow> AnalysisItem list \<Rightarrow> AnalysisItem" where
  "settle e rs =
     (if mentionsRegex e then e
      else (case filter mentionsRegex rs of [] \<Rightarrow> e | r1 # _ \<Rightarrow> r1))"

definition winner :: "int \<Rightarrow> AnalysisItem list \<Rightarrow> AnalysisItem option" where
  "winner n issues =
     (case filter (\<lambda>r. lineStart r = Some n) issues of
        [] \<Rightarrow> None
      | r0 # rs \<Rightarrow> Some (settle r0 rs))"

text \<open>
  The text that \<open>scanAndMaskSecrets\<close> of the security service writes into the
  \<open>whyDetection\<close> field of every record it produces.
\<close>

definition securityWhyDetection :: string where
  "securityWhyDetection = ''Known high-risk pattern in production code''"

text \<open>
  Profile detection as the specification words it, to be compared with
  \<open>detectLanguage\<close>: some line starts (after its indentation) with the block-definition
  marker \<open>def\<close>, and some line is a colon-terminated header or starts with the
  module-import marker \<open>import\<close>.
\<close>

definition isBlank :: "char \<Rightarrow> bool" where
  "isBlank c = (c = CHR '' '' \<or> c = CHR 0x09)"

definition lineStartsWith :: "string \<Rightarrow> string \<Rightarrow> bool" where
  "lineStartsWith w l = prefix w (dropWhile isBlank l)"

definition colonTerminated :: "string \<Rightarrow> bool" where
  "colonTerminated l =
     (case dropWhile isBlank (rev l) of [] \<Rightarrow> False | c # _ \<Rightarrow> c = CHR '':'')"

definition detectProfile_spec :: "string \<Rightarrow> Lang" where
  "detectProfile_spec document =
     (let ls = splitLines document
      in if list_ex (lineStartsWith ''def '') ls
            \<and> (list_ex colonTerminated ls \<or> list_ex (lineStartsWith ''import '') ls)
         then Python else Tsx)"

section \<open>Properties of the matcher and of the segment splitting\<close>

text \<open>
  The equation of \<open>Star\<close> mentions \<open>Star\<close> again on its right-hand side, and that of
  \<open>matchAllFrom\<close> mentions \<open>matchAllFrom\<close>: both are unfolded by hand.
\<close>

declare ends.simps(8) [simp del]

lemma ends_bounds:
  "i \<le> length s \<Longrightarrow> j \<in> set (ends r s i) \<Longrightarrow> i \<le> j \<and> j \<le> length s"
proof (induction r s i arbitrary: j rule: ends.induct)
  case (5 ws s i)
  from "5.prems"(2) obtain w where "w \<in> set ws" "prefix w (drop i s)" "j = i + length w"
    by (auto split: if_splits)
  moreover from this have "length w \<le> length s - i"
    using prefix_length_le[of w "drop i s"] by simp
  ultimately show ?case using "5.prems"(1) by simp
next
  case (6 r1 r2 s i)
  from "6.prems"(2) obtain m where m: "m \<in> set (ends r1 s i)" "j \<in> set (ends r2 s m)"
    by auto
  from "6.IH"(1)[OF "6.prems"(1) m(1)] have im: "i \<le> m \<and> m \<le> length s" .
  from "6.IH"(2)[OF m(1) _ m(2)] im have "m \<le> j \<and> j \<le> length s" by simp
  with im show ?case by simp
next
  case (7 r1 r2 s i)
  from "7.prems"(2) have "j \<in> set (ends r1 s i) \<or> j \<in> set (ends r2 s i)" by simp
  then show ?case using "7.IH" "7.prems"(1) by blast
next
  case (8 r s i)
  from "8.prems"(2) have "j = i \<or> (\<exists>m \<in> set (ends r s i). i < m \<and> m \<le> length s
                      \<and> j \<in> set (ends (Star r) s m))"
    by (subst (asm) ends.simps(8)) auto
  then show ?case
  proof
    assume "j = i" with "8.prems"(1) show ?thesis by simp
  next
    assume "\<exists>m \<in> set (ends r s i). i < m \<and> m \<le> length s \<and> j \<in> set (ends (Star r) s m)"
    then obtain m where m: "m \<in> set (ends r s i)" "i < m" "m \<le> length s"
       "j \<in> set (ends (Star r) s m)" by blast
    have "m \<in> set (filter (\<lambda>j. i < j \<and> j \<le> length s) (ends r s i))" using m by simp
    from "8.IH"(2)[OF this m(3) m(4)] have "m \<le> j \<and> j \<le> length s" .
    with m show ?thesis by simp
  qed
next
  case (11 r s i)
  from "11.prems" show ?case by (simp split: if_splits)
qed (simp_all split: if_splits)


declare matchAllFrom.simps [simp del]

lemma wfMatches_mono: "wfMatches s k ms \<Longrightarrow> k' \<le> k \<Longrightarrow> wfMatches s k' ms"
  by (cases ms) auto

lemma wfMatches_matchAllFrom: "wfMatches s k (matchAllFrom r s k)"
proof (induction r s k rule: matchAllFrom.induct)
  case (1 r s k)
  show ?case
  proof (cases "length s < k")
    case True then show ?thesis by (subst matchAllFrom.simps) simp
  next
    case le: False
    show ?thesis
    proof (cases "ends r s k")
      case Nil
      with le have "wfMatches s (Suc k) (matchAllFrom r s (Suc k))" by (rule 1(1))
      then have "wfMatches s k (matchAllFrom r s (Suc k))"
        by (rule wfMatches_mono) simp
      moreover have "matchAllFrom r s k = matchAllFrom r s (Suc k)"
        using le Nil by (subst matchAllFrom.simps) simp
      ultimately show ?thesis by simp
    next
      case (Cons e es)
      with le have b: "k \<le> e \<and> e \<le> length s"
        using ends_bounds[of k s e r] by simp
      let ?k' = "if k < e then e else Suc k"
      from le Cons have "wfMatches s ?k' (matchAllFrom r s ?k')" by (rule 1(2))
      moreover have "e \<le> ?k'" using b by simp
      ultimately have "wfMatches s e (matchAllFrom r s ?k')"
        by (rule wfMatches_mono)
      moreover have "matchAllFrom r s k = (k, take (e - k) (drop k s)) # matchAllFrom r s ?k'"
        using le Cons by (subst matchAllFrom.simps) simp
      moreover have "length (take (e - k) (drop k s)) = e - k" "k + (e - k) = e"
        using b by auto
      ultimately show ?thesis using b by simp
    qed
  qed
qed

lemma substring_take_drop:
  "a \<le> b \<Longrightarrow> b \<le> length s \<Longrightarrow> substring s a b = take (b - a) (drop a s)"
  by (simp add: substring_def Let_def min_def max_def)

lemma take_drop_chain:
  "k \<le> i \<Longrightarrow> take (i - k) (drop k s) @ drop i s = drop k s"
proof -
  assume "k \<le> i"
  then have "drop i s = drop (i - k) (drop k s)" by simp
  then show ?thesis by (simp only: append_take_drop_id)
qed

lemma concat_splitMatches:
  "wfMatches s k ms \<Longrightarrow> k \<le> length s \<Longrightarrow>
   concat (map tok_text (splitMatches s ty k ms)) = drop k s"
proof (induction ms arbitrary: k)
  case Nil
  then show ?case by (simp add: substring_take_drop)
next
  case (Cons m ms)
  obtain i t where m: "m = (i, t)" by (cases m)
  from Cons.prems m have wf: "k \<le> i" "i + length t \<le> length s"
    "take (length t) (drop i s) = t" "wfMatches s (i + length t) ms" by auto
  from Cons.IH[OF wf(4) wf(2)]
  have rest: "concat (map tok_text (splitMatches s ty (i + length t) ms)) = drop (i + length t) s" .
  have "take (length t) (drop i s) @ drop (length t) (drop i s) = drop i s"
    by (rule append_take_drop_id)
  then have mid: "t @ drop (i + length t) s = drop i s"
    using wf(3) by (simp add: add.commute)
  have pre: "(if k < i then substring s k i else []) = take (i - k) (drop k s)"
    using wf by (auto simp: substring_take_drop)
  have "concat (map tok_text (splitMatches s ty k (m # ms)))
        = (if k < i then substring s k i else []) @ t @ drop (i + length t) s"
    using rest by (simp add: m)
  also have "\<dots> = take (i - k) (drop k s) @ drop i s" using pre mid by simp
  also have "\<dots> = drop k s" using wf(1) by (rule take_drop_chain)
  finally show ?case .
qed

lemma concat_applySegment:
  "concat (map tok_text (applySegment p ty seg)) = tok_text seg"
  using concat_splitMatches[OF wfMatches_matchAllFrom, of 0 "tok_text seg" ty p]
  by (simp add: applySegment_def Let_def matchAll_def)

lemma concat_applyPattern:
  "concat (map tok_text (applyPattern p ty segs)) = concat (map tok_text segs)"
  by (induction segs) (simp_all add: applyPattern_def concat_applySegment)

lemma withOffsets_append:
  "withOffsets k (xs @ ys)
   = withOffsets k xs @ withOffsets (k + length (concat (map tok_text xs))) ys"
  by (induction xs arbitrary: k) (simp_all add: add.assoc)

lemma splitMatches_offsets:
  "wfMatches s k ms \<Longrightarrow> (i, t) \<in> set ms \<Longrightarrow>
   (i, \<lparr>tok_text = t, tok_type = ty\<rparr>) \<in> set (withOffsets k (splitMatches s ty k ms))"
proof (induction ms arbitrary: k)
  case Nil
  then show ?case by simp
next
  case (Cons m ms)
  obtain i' t' where m: "m = (i', t')" by (cases m)
  from Cons.prems(1) m have wf: "k \<le> i'" "i' + length t' \<le> length s"
    "wfMatches s (i' + length t') ms" by auto
  have pre: "k < i' \<Longrightarrow> k + length (substring s k i') = i'" "\<not> k < i' \<Longrightarrow> k = i'"
    using wf by (auto simp: substring_take_drop)
  have split: "withOffsets k (splitMatches s ty k (m # ms))
      = withOffsets k (if k < i' then [\<lparr>tok_text = substring s k i', tok_type = Text\<rparr>] else [])
        @ (i', \<lparr>tok_text = t', tok_type = ty\<rparr>)
        # withOffsets (i' + length t') (splitMatches s ty (i' + length t') ms)"
    using pre by (cases "k < i'") (simp_all add: m withOffsets_append)
  show ?case
  proof (cases "(i, t) = (i', t')")
    case True
    then show ?thesis by (simp add: split)
  next
    case False
    with Cons.prems(2) m have "(i, t) \<in> set ms" by auto
    from Cons.IH[OF wf(3) this] show ?thesis by (simp add: split)
  qed
qed

lemma applySegment_offsets:
  "(i, t) \<in> set (matchAll p s) \<Longrightarrow>
   (i, \<lparr>tok_text = t, tok_type = ty\<rparr>)
     \<in> set (withOffsets 0 (applySegment p ty \<lparr>tok_text = s, tok_type = Text\<rparr>))"
  using splitMatches_offsets[OF wfMatches_matchAllFrom, of i t r s 0 ty for r]
  by (auto simp: applySegment_def Let_def matchAll_def)

lemma applyPattern_keeps:
  "(i, tok) \<in> set (withOffsets k segs) \<Longrightarrow> tok_type tok \<noteq> Text \<Longrightarrow>
   (i, tok) \<in> set (withOffsets k (applyPattern p ty segs))"
proof (induction segs arbitrary: k)
  case Nil
  then show ?case by simp
next
  case (Cons seg segs)
  have unfold: "withOffsets k (applyPattern p ty (seg # segs))
      = withOffsets k (applySegment p ty seg)
        @ withOffsets (k + length (tok_text seg)) (applyPattern p ty segs)"
    by (simp add: applyPattern_def withOffsets_append concat_applySegment)
  from Cons.prems(1) consider "(i, tok) = (k, seg)"
    | "(i, tok) \<in> set (withOffsets (k + length (tok_text seg)) segs)" by auto
  then show ?case
  proof cases
    case 1
    with Cons.prems(2) have "applySegment p ty seg = [tok]" "i = k"
      by (simp_all add: applySegment_def)
    then show ?thesis by (simp add: unfold)
  next
    case 2
    from Cons.IH[OF this Cons.prems(2)] show ?thesis by (simp add: unfold)
  qed
qed

subsection \<open>A quoted literal is a match of the string rule\<close>

lemma inCls_two: "inCls [(a, a), (b, b)] c \<longleftrightarrow> c = a \<or> c = b"
  by (auto simp: inCls_def)

lemma star_stop:
  "p < length s \<Longrightarrow> s ! p = q \<Longrightarrow> q \<noteq> CHR 0x5C \<Longrightarrow> ends (star_body q) s p = [p]"
  by (simp add: star_body_def ends.simps(8) inCls_two)

lemma star_step:
  "p < length s \<Longrightarrow> s ! p \<noteq> q \<Longrightarrow> s ! p \<noteq> CHR 0x5C \<Longrightarrow>
   ends (star_body q) s p = ends (star_body q) s (Suc p) @ [p]"
  by (simp add: star_body_def ends.simps(8)[of _ s p] inCls_two)

lemma star_run:
  "e < length s \<Longrightarrow> s ! e = q \<Longrightarrow> q \<noteq> CHR 0x5C \<Longrightarrow> p \<le> e \<Longrightarrow>
   (\<forall>j. p \<le> j \<and> j < e \<longrightarrow> s ! j \<noteq> q \<and> s ! j \<noteq> CHR 0x5C) \<Longrightarrow>
   ends (star_body q) s p = rev [p ..< Suc e]"
proof (induction "e - p" arbitrary: p)
  case 0
  then have "p = e" by simp
  with 0 show ?case by (simp add: star_stop)
next
  case (Suc d)
  then have lt: "p < e" and d: "d = e - Suc p" by simp_all
  from Suc.prems lt have here: "p < length s" "s ! p \<noteq> q" "s ! p \<noteq> CHR 0x5C" by auto
  have "ends (star_body q) s (Suc p) = rev [Suc p ..< Suc e]"
    using Suc.prems lt by (intro Suc.hyps(1)[OF d]) auto
  with star_step[OF here] have "ends (star_body q) s p = rev [Suc p ..< Suc e] @ [p]" by simp
  also have "\<dots> = rev [p ..< Suc e]" using lt by (simp add: upt_conv_Cons)
  finally show ?case .
qed

lemma concat_map_Nil: "(\<And>x. x \<in> set xs \<Longrightarrow> f x = []) \<Longrightarrow> concat (map f xs) = []"
  by (induction xs) simp_all

lemma lit_run:
  "e < length s \<Longrightarrow> s ! e = q \<Longrightarrow> p \<le> e \<Longrightarrow> (\<forall>j. p \<le> j \<and> j < e \<longrightarrow> s ! j \<noteq> q) \<Longrightarrow>
   concat (map (ends (Lit q) s) (rev [p ..< Suc e])) = [Suc e]"
proof -
  assume a: "e < length s" "s ! e = q" "p \<le> e" "\<forall>j. p \<le> j \<and> j < e \<longrightarrow> s ! j \<noteq> q"
  have "concat (map (ends (Lit q) s) (rev [p ..< e])) = []"
    using a by (intro concat_map_Nil) auto
  with a show ?thesis by simp
qed

lemma quoted_at:
  assumes "k < e" "e < length s" "s ! k = q" "s ! e = q" "q \<noteq> CHR 0x5C"
    and "\<forall>j. k < j \<and> j < e \<longrightarrow> s ! j \<noteq> q \<and> s ! j \<noteq> CHR 0x5C"
  shows "ends (quoted q) s k = [Suc e]"
proof -
  have star: "ends (star_body q) s (Suc k) = rev [Suc k ..< Suc e]"
    using assms by (intro star_run) auto
  have lit: "concat (map (ends (Lit q) s) (rev [Suc k ..< Suc e])) = [Suc e]"
    using assms by (intro lit_run) auto
  have "ends (quoted q) s k
        = concat (map (ends (Lit q) s) (ends (star_body q) s (Suc k)))"
    using assms by (simp add: quoted_def)
  with star lit show ?thesis by simp
qed

lemma quoted_fail: "\<not> (k < length s \<and> s ! k = q) \<Longrightarrow> ends (quoted q) s k = []"
  by (cases "k < length s") (auto simp: quoted_def)

lemma strings_at:
  assumes "q \<in> set (quotes P)" "k < e" "e < length s" "s ! k = q" "s ! e = q"
    and "\<forall>j. k < j \<and> j < e \<longrightarrow> s ! j \<noteq> q \<and> s ! j \<noteq> CHR 0x5C"
  shows "ends (strings (PATTERNS P)) s k = [Suc e]"
proof -
  from assms(1) have nb: "q \<noteq> CHR 0x5C" by (cases P) auto
  have qs: "ends (quoted q') s k = (if q' = q then [Suc e] else [])" for q'
    using quoted_at[OF assms(2,3,4,5) nb assms(6)] quoted_fail[of k s q'] assms(4)
    by simp
  show ?thesis
  proof (cases P)
    case Tsx
    with assms(1) have "q = CHR 0x22 \<or> q = CHR 0x27 \<or> q = CHR 0x60" by simp
    then show ?thesis unfolding Tsx by (elim disjE) (simp_all add: tsx_rules_def qs)
  next
    case Python
    with assms(1) have "q = CHR 0x22 \<or> q = CHR 0x27" by simp
    then show ?thesis unfolding Python by (elim disjE) (simp_all add: python_rules_def qs)
  qed
qed

lemma strings_fail:
  "k < length s \<Longrightarrow> s ! k \<notin> set (quotes P) \<Longrightarrow> ends (strings (PATTERNS P)) s k = []"
  by (cases P) (auto simp: tsx_rules_def python_rules_def quoted_fail)

lemma matchAllFrom_skip:
  "a \<le> k \<Longrightarrow> k \<le> length s \<Longrightarrow> (\<forall>j. a \<le> j \<and> j < k \<longrightarrow> ends r s j = []) \<Longrightarrow>
   matchAllFrom r s a = matchAllFrom r s k"
proof (induction "k - a" arbitrary: a)
  case 0
  then show ?case by simp
next
  case (Suc d)
  then have lt: "a < k" and d: "d = k - Suc a" by simp_all
  with Suc.prems have "ends r s a = []" "\<not> length s < a" by auto
  then have "matchAllFrom r s a = matchAllFrom r s (Suc a)"
    by (subst matchAllFrom.simps) simp
  also have "\<dots> = matchAllFrom r s k"
    using Suc.prems lt by (intro Suc.hyps(1)[OF d]) auto
  finally show ?case .
qed

lemma string_literal_matched:
  assumes q: "q \<in> set (quotes P)"
    and pre: "set pre \<inter> set (quotes P) = {}"
    and body: "q \<notin> set body" "CHR 0x5C \<notin> set body"
  shows "(length pre, q # body @ [q])
         \<in> set (matchAll (strings (PATTERNS P)) (pre @ q # body @ q # post))"
proof -
  let ?s = "pre @ q # body @ q # post"
  let ?k = "length pre"
  let ?e = "Suc (length pre + length body)"
  let ?r = "strings (PATTERNS P)"
  have k: "?s ! ?k = q" by simp
  have e: "?s ! ?e = q"
    by (simp add: nth_append)
  have inner: "\<forall>j. ?k < j \<and> j < ?e \<longrightarrow> ?s ! j \<noteq> q \<and> ?s ! j \<noteq> CHR 0x5C"
  proof (intro allI impI)
    fix j assume j: "?k < j \<and> j < ?e"
    then have "?s ! j = body ! (j - Suc ?k)" "j - Suc ?k < length body"
      by (auto simp: nth_append nth_Cons')
    with body show "?s ! j \<noteq> q \<and> ?s ! j \<noteq> CHR 0x5C"
      by (metis nth_mem)
  qed
  have at: "ends ?r ?s ?k = [Suc ?e]"
    using q k e inner by (intro strings_at) auto
  have before: "\<forall>j. 0 \<le> j \<and> j < ?k \<longrightarrow> ends ?r ?s j = []"
  proof (intro allI impI)
    fix j assume j: "0 \<le> j \<and> j < ?k"
    then have "?s ! j = pre ! j" by (simp add: nth_append)
    with j pre have "?s ! j \<notin> set (quotes P)" by (metis disjoint_iff nth_mem)
    with j show "ends ?r ?s j = []" by (intro strings_fail) auto
  qed
  have "matchAll ?r ?s = matchAllFrom ?r ?s ?k"
    unfolding matchAll_def using before by (intro matchAllFrom_skip) auto
  also have "\<dots> = (?k, take (Suc ?e - ?k) (drop ?k ?s))
                    # matchAllFrom ?r ?s (Suc ?e)"
    using at by (subst matchAllFrom.simps) simp
  finally have "(?k, take (Suc ?e - ?k) (drop ?k ?s)) \<in> set (matchAll ?r ?s)" by simp
  moreover have "take (Suc ?e - ?k) (drop ?k ?s) = q # body @ [q]"
    by (simp add: Suc_diff_le)
  ultimately show ?thesis by simp
qed

text \<open>
  A string literal without escapes, with no quote character before it in the line, is
  one token of class \<open>String\<close>.
\<close>

lemma tokenizeLine_keeps:
  "(i, tok) \<in> set (withOffsets 0
      (applyPattern (strings (PATTERNS P)) String [\<lparr>tok_text = L, tok_type = Text\<rparr>])) \<Longrightarrow>
   tok_type tok \<noteq> Text \<Longrightarrow>
   (i, tok) \<in> set (withOffsets 0 (tokenizeLine L P))"
  by (simp add: tokenizeLine_def Let_def applyPattern_keeps)

corollary string_literal_one_token:
  assumes "q \<in> set (quotes P)" and "set pre \<inter> set (quotes P) = {}"
    and "q \<notin> set body" and "CHR 0x5C \<notin> set body"
  shows "(length pre, \<lparr>tok_text = q # body @ [q], tok_type = String\<rparr>)
         \<in> set (withOffsets 0 (tokenizeLine (pre @ q # body @ q # post) P))"
proof -
  from string_literal_matched [OF assms]
  have "(length pre, \<lparr>tok_text = q # body @ [q], tok_type = String\<rparr>)
     \<in> set (withOffsets 0 (applyPattern (strings (PATTERNS P)) String
              [\<lparr>tok_text = pre @ q # body @ q # post, tok_type = Text\<rparr>]))"
    using applySegment_offsets by (simp add: applyPattern_def)
  then show ?thesis by (rule tokenizeLine_keeps) simp
qed

text \<open>The equations that evaluate the tokenizer on a concrete line.\<close>

lemmas eval_defs = tokenizeLine_def applyPattern_def applySegment_def matchAll_def
  tsx_rules_def python_rules_def quoted_def star_body_def digit_def alnum_def alnum_us_def space_def
  isWordAt_def matchAllFrom.simps ends.simps(8)

section \<open>Properties of the issue index and of the line view\<close>

lemma includes'_sublist: "includes' s sub = sublist sub s"
  by (induction s) (simp_all add: sublist_Cons_right)

lemma issueStep_cases:
  "issueStep m issue n = Some r \<Longrightarrow>
   m n = Some r \<or> (r = issue \<and> lineStart r = Some n \<and> n \<noteq> 0)"
  by (auto simp: issueStep_def split: option.splits if_splits)

lemma foldl_issueStep_sound:
  "foldl issueStep m issues n = Some r \<Longrightarrow>
   m n = Some r \<or> (r \<in> set issues \<and> lineStart r = Some n \<and> n \<noteq> 0)"
proof (induction issues arbitrary: m)
  case Nil
  then show ?case by simp
next
  case (Cons issue issues)
  from Cons.prems have "foldl issueStep (issueStep m issue) issues n = Some r" by simp
  from Cons.IH[OF this] show ?case
    using issueStep_cases[of m issue n r] by auto
qed

lemma issueMap_sound:
  "issueMap issues n = Some r \<Longrightarrow> r \<in> set issues \<and> lineStart r = Some n \<and> n \<noteq> 0"
  using foldl_issueStep_sound[of Map.empty issues n r] by (simp add: issueMap_def)

lemma isSelected_iff:
  "isSelected (renderLine issues sel fixed lang index line)
   = (\<exists>r. issueMap issues (int index + 1) = Some r \<and> sel = Some (item_id r))"
  by (cases "issueMap issues (int index + 1)"; cases sel) (auto simp: renderLine_def Let_def)

lemma CodeViewer_nth:
  "index < length (splitLines code) \<Longrightarrow>
   CodeViewer code issues sel fixed ! index
   = renderLine issues sel fixed (detectLanguage code) index (splitLines code ! index)"
  by (simp add: CodeViewer_def Let_def nth_enumerate_eq)

lemma length_CodeViewer: "length (CodeViewer code issues sel fixed) = length (splitLines code)"
  by (simp add: CodeViewer_def Let_def)

subsection \<open>The record that wins a line\<close>

lemma issueStep_other: "lineStart x \<noteq> Some n \<Longrightarrow> issueStep m x n = m n"
  by (auto simp: issueStep_def split: option.splits)

lemma issueStep_at:
  "lineStart x = Some n \<Longrightarrow> n \<noteq> 0 \<Longrightarrow>
   issueStep m x n =
     (case m n of None \<Rightarrow> Some x
      | Some e \<Rightarrow> if \<not> mentionsRegex e \<and> mentionsRegex x then Some x else Some e)"
  by (auto simp: issueStep_def mentionsRegex_def split: option.splits)

lemma foldl_issueStep_winner:
  "n \<noteq> 0 \<Longrightarrow>
   foldl issueStep m issues n =
     (case m n of
        None \<Rightarrow> winner n issues
      | Some e \<Rightarrow> Some (settle e (filter (\<lambda>r. lineStart r = Some n) issues)))"
proof (induction issues arbitrary: m)
  case Nil
  then show ?case by (simp add: winner_def settle_def split: option.splits)
next
  case (Cons x issues)
  show ?case
  proof (cases "lineStart x = Some n")
    case False
    then show ?thesis
      using Cons.IH[OF Cons.prems, of "issueStep m x"]
      by (cases "m n") (simp_all add: issueStep_other winner_def)
  next
    case True
    then show ?thesis
      using Cons.IH[OF Cons.prems, of "issueStep m x"] Cons.prems
      by (auto simp: issueStep_at winner_def settle_def split: option.splits list.splits)
  qed
qed

lemma issueMap_winner: "n \<noteq> 0 \<Longrightarrow> issueMap issues n = winner n issues"
  by (simp add: issueMap_def foldl_issueStep_winner)

lemma issueMap_zero: "issueMap issues 0 = None"
  using issueMap_sound[of issues 0] by (cases "issueMap issues 0") auto

section \<open>The properties of the specification, one by one\<close>

text \<open>
  C1. For every line \<open>L\<close> and both language profiles \<open>P\<close>, the texts of the tokens of
  \<open>tokenizeLine L P\<close>, concatenated in output order, are \<open>L\<close> itself: nothing is gained,
  lost or reordered.
\<close>

theorem C1_token_concatenation:
  "concat (map tok_text (tokenizeLine L P)) = L"
  by (simp add: tokenizeLine_def Let_def concat_applyPattern)

text \<open>
  C2. The claim: of the records that share a line, one whose detection reason marks a
  pattern-based security detection wins whatever the input order, so the list of record
  \<open>a\<close> (line 5, reason \<open>heuristic\<close>) followed by record \<open>b\<close> (line 5, reason
  \<open>Known high-risk pattern\<close>) indexes line 5 to \<open>b\<close>. The code decides precedence by the
  word \<open>Regex\<close>, which neither this reason nor the one the security service writes
  contains: on that list line 5 is indexed to \<open>a\<close>, the record that came first.
\<close>

theorem C2_scenario_indexes_first_record:
  "map_option item_id
     (issueMap [\<lparr>item_id = ''a'', problem = [], lineStart = Some 5,
                 whyDetection = ''heuristic'', risk = LOW\<rparr>,
                \<lparr>item_id = ''b'', problem = [], lineStart = Some 5,
                 whyDetection = ''Known high-risk pattern'', risk = HIGH\<rparr>] 5)
   = Some ''a''
   \<and> includes' securityWhyDetection ''Regex'' = False"
  by (simp add: issueMap_def issueStep_def securityWhyDetection_def)

text \<open>
  C3. For every issue list, selection, fixed set and line index, with \<open>n\<close> the line
  number \<open>index + 1\<close>: \<open>hasIssue\<close> says that the index has an entry for \<open>n\<close>,
  \<open>isSelected\<close> is \<open>hasIssue\<close> and the entry's id being the selected id, and \<open>isFixed\<close>
  is \<open>hasIssue\<close> and the entry's id being in the fixed set.
\<close>

theorem C3_render_descriptor:
  "hasIssue (renderLine issues sel fixed lang index line)
     = (int index + 1 \<in> dom (issueMap issues))
   \<and> isSelected (renderLine issues sel fixed lang index line)
     = (hasIssue (renderLine issues sel fixed lang index line)
        \<and> Some (item_id (the (issueMap issues (int index + 1)))) = sel)
   \<and> isFixed (renderLine issues sel fixed lang index line)
     = (hasIssue (renderLine issues sel fixed lang index line)
        \<and> item_id (the (issueMap issues (int index + 1))) \<in> fixed)"
  by (cases "issueMap issues (int index + 1)"; cases sel)
     (auto simp: renderLine_def Let_def dom_def)

text \<open>
  C4. The claim, that in every line containing a complete string literal the
  keyword-like text inside the literal is part of one token of class \<open>String\<close>, fails
  when an earlier quote character of the line pairs with the opening quote of the
  literal. The literal \<open>'if (x)'\<close> is by itself one match of the string rule; in the
  line \<open><p>Don't</p><a title='if (x)'/>\<close> the apostrophe of \<open>Don't\<close> and the opening
  quote of the literal delimit the token of class \<open>String\<close>, and the \<open>if\<close> of the
  literal is a token of class \<open>Keyword\<close>.
\<close>

theorem C4_string_literal_counterexample:
  "matchAll (strings (PATTERNS Tsx)) (CHR 0x27 # ''if (x)'' @ [CHR 0x27])
     = [(0, CHR 0x27 # ''if (x)'' @ [CHR 0x27])]
   \<and> tokenizeLine
       (''<p>Don'' @ CHR 0x27 # ''t</p><a title='' @ (CHR 0x27 # ''if (x)'' @ [CHR 0x27]) @ ''/>'')
       Tsx
     = [\<lparr>tok_text = ''<p>'', tok_type = Text\<rparr>,
        \<lparr>tok_text = ''Don'', tok_type = Type\<rparr>,
        \<lparr>tok_text = CHR 0x27 # ''t</p><a title='' @ [CHR 0x27], tok_type = String\<rparr>,
        \<lparr>tok_text = ''if'', tok_type = Keyword\<rparr>,
        \<lparr>tok_text = '' (x)'' @ CHR 0x27 # ''/>'', tok_type = Text\<rparr>]"
  by code_simp

text \<open>
  C4, amended. Every string literal that the string rule of the profile finds in its
  scan of a line from left to right, at index \<open>i\<close> with text \<open>t\<close>, is in the result of
  \<open>tokenizeLine\<close> one token of class \<open>String\<close> with exactly the text \<open>t\<close>, starting at
  offset \<open>i\<close> of the line: the five later rules leave it whole, whatever keyword-like
  text it contains.
\<close>

theorem C4_string_literal_kept_whole:
  "(i, t) \<in> set (matchAll (strings (PATTERNS P)) L) \<Longrightarrow>
   (i, \<lparr>tok_text = t, tok_type = String\<rparr>) \<in> set (withOffsets 0 (tokenizeLine L P))"
proof -
  assume "(i, t) \<in> set (matchAll (strings (PATTERNS P)) L)"
  then have "(i, \<lparr>tok_text = t, tok_type = String\<rparr>)
     \<in> set (withOffsets 0
              (applyPattern (strings (PATTERNS P)) String [\<lparr>tok_text = L, tok_type = Text\<rparr>]))"
    using applySegment_offsets by (simp add: applyPattern_def)
  then show ?thesis by (rule tokenizeLine_keeps) simp
qed

theorem C4_string_literal_kept_whole_witness:
  "(4, ''\"if (x)\"'') \<in> set (matchAll (strings (PATTERNS Tsx)) ''x = \"if (x)\"'')
   \<and> (4, \<lparr>tok_text = ''\"if (x)\"'', tok_type = String\<rparr>)
       \<in> set (withOffsets 0 (tokenizeLine ''x = \"if (x)\"'' Tsx))"
proof -
  have h: "(4, ''\"if (x)\"'') \<in> set (matchAll (strings (PATTERNS Tsx)) ''x = \"if (x)\"'')"
    by (simp add: eval_defs inCls_def)
  from C4_string_literal_kept_whole [OF h] h show ?thesis by (rule conjI [rotated])
qed

text \<open>
  C5. A line of 500 or more characters is not tokenized: its view has the single token
  of class \<open>Text\<close> that holds the whole line, whatever the line contains. A shorter
  line has the tokens of \<open>tokenizeLine\<close>.
\<close>

theorem C5_length_threshold:
  "(500 \<le> length line \<longrightarrow>
      tokens (renderLine issues sel fixed lang index line)
      = [\<lparr>tok_text = line, tok_type = Text\<rparr>])
   \<and> (length line < 500 \<longrightarrow>
      tokens (renderLine issues sel fixed lang index line) = tokenizeLine line lang)"
  by (simp add: renderLine_def Let_def)

theorem C5_length_threshold_witness:
  "500 \<le> length (replicate 500 (CHR 0x22))
   \<and> tokens (renderLine [] None {} Tsx 0 (replicate 500 (CHR 0x22)))
     = [\<lparr>tok_text = replicate 500 (CHR 0x22), tok_type = Text\<rparr>]
   \<and> length ''if'' < 500
   \<and> tokens (renderLine [] None {} Tsx 0 ''if'') = tokenizeLine ''if'' Tsx"
proof -
  have long: "500 \<le> length (replicate 500 (CHR 0x22))" by simp
  have short: "length ''if'' < 500" by simp
  from C5_length_threshold [of "replicate 500 (CHR 0x22)" "[]" None "{}" Tsx 0] long
  have a: "tokens (renderLine [] None {} Tsx 0 (replicate 500 (CHR 0x22)))
     = [\<lparr>tok_text = replicate 500 (CHR 0x22), tok_type = Text\<rparr>]" by blast
  from C5_length_threshold [of "''if''" "[]" None "{}" Tsx 0] short
  have b: "tokens (renderLine [] None {} Tsx 0 ''if'') = tokenizeLine ''if'' Tsx" by blast
  from long a short b show ?thesis by blast
qed

text \<open>
  C6. The claim, that the empty line gives no token, fails: the initial segment is
  never removed.
\<close>

theorem C6_empty_line_counterexample:
  "tokenizeLine [] Tsx \<noteq> []"
  by (simp add: eval_defs)

text \<open>
  C6, amended. For both profiles the empty line gives exactly one token: class \<open>Text\<close>,
  empty text.
\<close>

theorem C6_empty_line_one_token:
  "tokenizeLine [] P = [\<lparr>tok_text = [], tok_type = Text\<rparr>]"
  by (cases P) (simp_all add: eval_defs)

text \<open>
  C7. The claim, that selecting the id of a record anchored at line \<open>n\<close> selects line
  \<open>n\<close>, fails when another record holds that line in the index: of two records at line
  5, the second is in the list and anchored at line 5, yet selecting it leaves line 5
  unselected.
\<close>

theorem C7_selection_counterexample:
  "\<lparr>item_id = ''b'', problem = [], lineStart = Some 5, whyDetection = ''y'', risk = LOW\<rparr>
     \<in> set [\<lparr>item_id = ''a'', problem = [], lineStart = Some 5, whyDetection = ''x'',
              risk = LOW\<rparr>,
             \<lparr>item_id = ''b'', problem = [], lineStart = Some 5, whyDetection = ''y'',
              risk = LOW\<rparr>]
   \<and> isSelected
        (renderLine
           [\<lparr>item_id = ''a'', problem = [], lineStart = Some 5, whyDetection = ''x'',
             risk = LOW\<rparr>,
            \<lparr>item_id = ''b'', problem = [], lineStart = Some 5, whyDetection = ''y'',
             risk = LOW\<rparr>]
           (Some ''b'') {} Tsx 4 ''x'')
     = False"
  by (simp add: renderLine_def issueMap_def issueStep_def)

text \<open>
  C7, amended. When the selected id is the id of the record that the index holds for
  line \<open>i + 1\<close>, and the ids of the records are distinct, the view of that line is
  selected and the view of every other line is not.
\<close>

theorem C7_selection_of_indexed_record:
  assumes "issueMap issues (int i + 1) = Some r" and "sel = Some (item_id r)"
    and "distinct (map item_id issues)" and "j \<noteq> i"
  shows "isSelected (renderLine issues sel fixed lang i line)
       \<and> \<not> isSelected (renderLine issues sel fixed lang' j line')"
proof
  show "isSelected (renderLine issues sel fixed lang i line)"
    using assms(1,2) by (simp add: isSelected_iff)
  show "\<not> isSelected (renderLine issues sel fixed lang' j line')"
  proof
    assume "isSelected (renderLine issues sel fixed lang' j line')"
    then obtain r' where r': "issueMap issues (int j + 1) = Some r'" "sel = Some (item_id r')"
      by (auto simp: isSelected_iff)
    from issueMap_sound [OF assms(1)] issueMap_sound [OF r'(1)]
    have in_set: "r \<in> set issues" "r' \<in> set issues"
      and ls: "lineStart r = Some (int i + 1)" "lineStart r' = Some (int j + 1)" by simp_all
    from assms(2) r'(2) have "item_id r = item_id r'" by simp
    with assms(3) in_set have "r = r'"
      by (meson distinct_map inj_onD)
    with ls assms(4) show False by simp
  qed
qed

theorem C7_selection_of_indexed_record_witness:
  "issueMap [\<lparr>item_id = ''a'', problem = [], lineStart = Some 5, whyDetection = ''x'',
              risk = LOW\<rparr>,
             \<lparr>item_id = ''b'', problem = [], lineStart = Some 7, whyDetection = ''y'',
              risk = HIGH\<rparr>] (int 4 + 1)
     = Some \<lparr>item_id = ''a'', problem = [], lineStart = Some 5, whyDetection = ''x'',
              risk = LOW\<rparr>
   \<and> distinct (map item_id
        [\<lparr>item_id = ''a'', problem = [], lineStart = Some 5, whyDetection = ''x'',
           risk = LOW\<rparr>,
         \<lparr>item_id = ''b'', problem = [], lineStart = Some 7, whyDetection = ''y'',
           risk = HIGH\<rparr>])
   \<and> (6::nat) \<noteq> 4
   \<and> isSelected (renderLine
        [\<lparr>item_id = ''a'', problem = [], lineStart = Some 5, whyDetection = ''x'',
           risk = LOW\<rparr>,
         \<lparr>item_id = ''b'', problem = [], lineStart = Some 7, whyDetection = ''y'',
           risk = HIGH\<rparr>] (Some ''a'') {} Tsx 4 ''x'')
   \<and> \<not> isSelected (renderLine
        [\<lparr>item_id = ''a'', problem = [], lineStart = Some 5, whyDetection = ''x'',
           risk = LOW\<rparr>,
         \<lparr>item_id = ''b'', problem = [], lineStart = Some 7, whyDetection = ''y'',
           risk = HIGH\<rparr>] (Some ''a'') {} Tsx 6 ''y'')"
  (is "?h1 \<and> ?h2 \<and> ?h3 \<and> ?c1 \<and> ?c2")
proof -
  have h1: ?h1 by (simp add: issueMap_def issueStep_def)
  have h2: ?h2 by simp
  have h3: ?h3 by simp
  from C7_selection_of_indexed_record [OF h1 _ h2 h3, of "Some ''a''" "{}" Tsx "''x''" Tsx "''y''"]
  have "?c1 \<and> ?c2" by simp
  with h1 h2 h3 show ?thesis by blast
qed

text \<open>
  C8. When the selected id is the id of no record of the issue list, no line is
  selected: \<open>isSelected\<close> is false in the view of every line of the document, and in
  the view of a line at any index.
\<close>

theorem C8_stale_selection:
  "s \<notin> set (map item_id issues) \<Longrightarrow>
   map isSelected (CodeViewer code issues (Some s) fixed)
     = replicate (length (splitLines code)) False
   \<and> isSelected (renderLine issues (Some s) fixed lang index line) = False"
proof -
  assume stale: "s \<notin> set (map item_id issues)"
  have one: "isSelected (renderLine issues (Some s) fixed lang' index' line') = False"
    for lang' index' line'
    using stale issueMap_sound by (fastforce simp: isSelected_iff)
  have "map isSelected (CodeViewer code issues (Some s) fixed)
        = replicate (length (splitLines code)) False"
    by (rule nth_equalityI) (simp_all add: length_CodeViewer CodeViewer_nth one)
  with one show ?thesis by simp
qed

theorem C8_stale_selection_witness:
  "''zz'' \<notin> set (map item_id
      [\<lparr>item_id = ''a'', problem = [], lineStart = Some 1, whyDetection = ''x'',
         risk = LOW\<rparr>])
   \<and> map isSelected (CodeViewer [CHR ''x'', CHR 0x0A, CHR ''y'']
        [\<lparr>item_id = ''a'', problem = [], lineStart = Some 1, whyDetection = ''x'',
           risk = LOW\<rparr>] (Some ''zz'') {})
     = replicate (length (splitLines [CHR ''x'', CHR 0x0A, CHR ''y''])) False
   \<and> isSelected (renderLine
        [\<lparr>item_id = ''a'', problem = [], lineStart = Some 1, whyDetection = ''x'',
           risk = LOW\<rparr>] (Some ''zz'') {} Tsx 0 ''x'') = False"
  (is "?h \<and> ?c")
proof -
  have h: ?h by simp
  have c: ?c
    by (rule C8_stale_selection [OF h, of "[CHR ''x'', CHR 0x0A, CHR ''y'']" "{}" Tsx 0 "''x''"])
  from h c show ?thesis by (rule conjI)
qed

text \<open>
  C9. The claim, that the Python profile is chosen exactly when a line starts with the
  block-definition marker and a line is a colon-terminated header or an import
  statement, fails: the code looks for the three texts anywhere in the document. A
  one-line document with \<open>def\<close> and a colon in the middle of the line is detected as
  Python.
\<close>

theorem C9_detection_counterexample:
  "detectLanguage ''x = undef ? a : b'' = Python
   \<and> detectProfile_spec ''x = undef ? a : b'' = Tsx"
  by (simp add: detectLanguage_def detectProfile_spec_def lineStartsWith_def
        colonTerminated_def isBlank_def)

text \<open>
  C9, amended. \<open>detectLanguage\<close> is a function of the whole document: it chooses the
  Python profile exactly when the document contains the text \<open>def\<close> followed by a
  space somewhere, and contains a colon somewhere or the text \<open>import\<close> followed by a
  space somewhere; for every other document it chooses the tsx profile.
\<close>

theorem C9_detection_by_substrings:
  "detectLanguage code =
     (if sublist ''def '' code \<and> (sublist '':'' code \<or> sublist ''import '' code)
      then Python else Tsx)"
  by (simp add: detectLanguage_def includes'_sublist)

text \<open>
  C10. Every entry of the index is a record of the input list, anchored at the line
  it is indexed under, and that line is not 0; so a record without a line or with line
  0 is in no entry. When the ids of the records are distinct, a selection selects at
  most one line.
\<close>

theorem C10_index_sound:
  "(issueMap issues n = Some r \<longrightarrow> r \<in> set issues \<and> lineStart r = Some n \<and> n \<noteq> 0)
   \<and> (distinct (map item_id issues)
        \<and> isSelected (renderLine issues sel fixed lang i line)
        \<and> isSelected (renderLine issues sel fixed lang' j line') \<longrightarrow> i = j)"
proof (rule conjI; rule impI)
  assume "issueMap issues n = Some r"
  then show "r \<in> set issues \<and> lineStart r = Some n \<and> n \<noteq> 0" by (rule issueMap_sound)
next
  assume a: "distinct (map item_id issues)
        \<and> isSelected (renderLine issues sel fixed lang i line)
        \<and> isSelected (renderLine issues sel fixed lang' j line')"
  then obtain r r' where r: "issueMap issues (int i + 1) = Some r" "sel = Some (item_id r)"
    and r': "issueMap issues (int j + 1) = Some r'" "sel = Some (item_id r')"
    by (auto simp: isSelected_iff)
  from issueMap_sound [OF r(1)] issueMap_sound [OF r'(1)]
  have in_set: "r \<in> set issues" "r' \<in> set issues"
    and ls: "lineStart r = Some (int i + 1)" "lineStart r' = Some (int j + 1)" by simp_all
  from r(2) r'(2) have "item_id r = item_id r'" by simp
  with a in_set have "r = r'" by (meson distinct_map inj_onD)
  with ls show "i = j" by simp
qed

theorem C10_index_sound_witness:
  "issueMap [\<lparr>item_id = ''a'', problem = [], lineStart = Some 5, whyDetection = ''x'',
              risk = LOW\<rparr>,
             \<lparr>item_id = ''c'', problem = [], lineStart = Some 0, whyDetection = ''z'',
              risk = LOW\<rparr>] 5
     = Some \<lparr>item_id = ''a'', problem = [], lineStart = Some 5, whyDetection = ''x'',
              risk = LOW\<rparr>
   \<and> \<lparr>item_id = ''a'', problem = [], lineStart = Some 5, whyDetection = ''x'', risk = LOW\<rparr>
       \<in> set [\<lparr>item_id = ''a'', problem = [], lineStart = Some 5, whyDetection = ''x'',
                risk = LOW\<rparr>,
               \<lparr>item_id = ''c'', problem = [], lineStart = Some 0, whyDetection = ''z'',
                risk = LOW\<rparr>]
   \<and> distinct (map item_id
        [\<lparr>item_id = ''a'', problem = [], lineStart = Some 5, whyDetection = ''x'',
           risk = LOW\<rparr>,
         \<lparr>item_id = ''c'', problem = [], lineStart = Some 0, whyDetection = ''z'',
           risk = LOW\<rparr>])
   \<and> isSelected (renderLine
        [\<lparr>item_id = ''a'', problem = [], lineStart = Some 5, whyDetection = ''x'',
           risk = LOW\<rparr>,
         \<lparr>item_id = ''c'', problem = [], lineStart = Some 0, whyDetection = ''z'',
           risk = LOW\<rparr>] (Some ''a'') {} Tsx 4 ''x'')
   \<and> (4::nat) = 4"
  (is "?h1 \<and> ?c1 \<and> ?h2 \<and> ?h3 \<and> ?c2")
proof -
  have h1: ?h1 by (simp add: issueMap_def issueStep_def)
  have h2: ?h2 by simp
  have h3: ?h3 by (simp add: renderLine_def issueMap_def issueStep_def)
  note t = C10_index_sound [where n = 5 and i = 4 and j = 4 and sel = "Some ''a''"
      and fixed = "{}" and lang = Tsx and lang' = Tsx and line = "''x''" and line' = "''x''"
      and r = "\<lparr>item_id = ''a'', problem = [], lineStart = Some 5, whyDetection = ''x'',
                risk = LOW\<rparr>"
      and issues = "[\<lparr>item_id = ''a'', problem = [], lineStart = Some 5,
                      whyDetection = ''x'', risk = LOW\<rparr>,
                    \<lparr>item_id = ''c'', problem = [], lineStart = Some 0,
                      whyDetection = ''z'', risk = LOW\<rparr>]"]
  from t h1 have c1: ?c1 by blast
  from t h2 h3 have c2: ?c2 by blast
  from h1 c1 h2 h3 c2 show ?thesis by blast
qed

end
